theory Spec2Isabelle
  imports Main
begin

section \<open>Python string operations used by the scraper\<close>

text \<open>
  Strings are lists of 8-bit characters: the model covers the code points below 256.
  On that range \<open>str.isspace\<close>, and with it \<open>str.strip()\<close> and the regular
  expression class \<open>\s\<close>, accept the characters 0x09-0x0D, 0x1C-0x20, 0x85 and 0xA0;
  the class \<open>\d\<close> accepts the ten ASCII digits.
\<close>

definition is_space :: "char \<Rightarrow> bool" where
  "is_space c \<longleftrightarrow> c \<in> set [CHR 0x09, CHR 0x0A, CHR 0x0B, CHR 0x0C, CHR 0x0D,
      CHR 0x1C, CHR 0x1D, CHR 0x1E, CHR 0x1F, CHR 0x20, CHR 0x85, CHR 0xA0]"

definition is_digit :: "char \<Rightarrow> bool" where
  "is_digit c \<longleftrightarrow> c \<in> set ''0123456789''"

text \<open>\<open>s.strip()\<close>: white space is removed at both ends.\<close>

definition strip :: "string \<Rightarrow> string" where
  "strip s = rev (dropWhile is_space (rev (dropWhile is_space s)))"

text \<open>\<open>s.startswith(p)\<close>.\<close>

definition startswith :: "string \<Rightarrow> string \<Rightarrow> bool" where
  "startswith p s \<longleftrightarrow> take (length p) s = p"

text \<open>\<open>sub in s\<close>: the substring test.\<close>

fun contains :: "string \<Rightarrow> string \<Rightarrow> bool" where
  "contains sub [] = (sub = [])"
| "contains sub (c # cs) = (startswith sub (c # cs) \<or> contains sub cs)"

text \<open>
  \<open>s.replace(old, new)\<close>: the occurrences of \<open>old\<close> are found from the left and do
  not overlap; an empty \<open>old\<close> matches before every character and at the end.
\<close>

function replace :: "string \<Rightarrow> string \<Rightarrow> string \<Rightarrow> string" where
  "replace old new [] = (if old = [] then new else [])"
| "replace old new (c # cs) =
     (if old = [] then new @ c # replace old new cs
      else if startswith old (c # cs) then new @ replace old new (drop (length old) (c # cs))
      else c # replace old new cs)"
  by pat_completeness auto
termination
  by (relation "measure (\<lambda>(old, new, s). length s)") auto

text \<open>\<open>sep.join(xs)\<close>.\<close>

fun join :: "string \<Rightarrow> string list \<Rightarrow> string" where
  "join sep [] = []"
| "join sep [x] = x"
| "join sep (x # y # ys) = x @ sep @ join sep (y # ys)"

text \<open>
  \<open>s.capitalize()\<close> on ASCII strings: the first letter in upper case, the others in
  lower case. The scraper applies it to HTML tag names only.
\<close>

definition lower_letters :: string where
  "lower_letters = ''abcdefghijklmnopqrstuvwxyz''"

definition upper_letters :: string where
  "upper_letters = ''ABCDEFGHIJKLMNOPQRSTUVWXYZ''"

definition to_upper :: "char \<Rightarrow> char" where
  "to_upper c = (case map_of (zip lower_letters upper_letters) c of Some u \<Rightarrow> u | None \<Rightarrow> c)"

definition to_lower :: "char \<Rightarrow> char" where
  "to_lower c = (case map_of (zip upper_letters lower_letters) c of Some l \<Rightarrow> l | None \<Rightarrow> c)"

definition capitalize :: "string \<Rightarrow> string" where
  "capitalize s = (case s of [] \<Rightarrow> [] | c # cs \<Rightarrow> to_upper c # map to_lower cs)"

text \<open>\<open>str(n)\<close> for a Python integer, as an f-string renders it.\<close>

fun str_nat :: "nat \<Rightarrow> string" where
  "str_nat n = (if n < 10 then [''0123456789'' ! n] else str_nat (n div 10) @ [''0123456789'' ! (n mod 10)])"

declare str_nat.simps [simp del]

definition str_int :: "int \<Rightarrow> string" where
  "str_int i = (if i < 0 then ''-'' @ str_nat (nat (- i)) else str_nat (nat i))"

section \<open>Title normalisation: \<open>clean_page_title\<close>\<close>

definition months :: "string list" where
  "months = [''JAN'', ''FEB'', ''MAR'', ''APR'', ''MAY'', ''JUN'',
             ''JUL'', ''AUG'', ''SEP'', ''OCT'', ''NOV'', ''DEC'']"

text \<open>
  A match of \<open>(JAN|FEB|...|DEC)\s+\d+\<close> at the start of \<open>s\<close>; the result is the text
  that follows the match. Both repetitions are greedy and their classes are disjoint, so the
  match takes the whole run of white space and then the whole run of digits, and there is no
  match when either run is empty.
\<close>

definition match_date :: "string \<Rightarrow> string option" where
  "match_date s =
     (if take 3 s \<in> set months then
        (let ws = takeWhile is_space (drop 3 s);
             r1 = dropWhile is_space (drop 3 s);
             ds = takeWhile is_digit r1;
             r2 = dropWhile is_digit r1
         in if ws \<noteq> [] \<and> ds \<noteq> [] then Some r2 else None)
      else None)"

text \<open>
  \<open>re.sub(pattern, '', s)\<close>: the matches are found from the left and do not overlap; the
  search resumes where the previous match ended.
\<close>

function re_sub_date :: "string \<Rightarrow> string" where
  "re_sub_date [] = []"
| "re_sub_date (c # cs) =
     (case match_date (c # cs) of
        Some rest \<Rightarrow> re_sub_date rest
      | None \<Rightarrow> c # re_sub_date cs)"
  by pat_completeness auto
termination
proof (relation "measure length")
  show "wf (measure length)" by simp
next
  fix c :: char and cs rest :: string
  assume m: "match_date (c # cs) = Some rest"
  then have r: "rest = dropWhile is_digit (dropWhile is_space (drop 3 (c # cs)))"
    and w: "takeWhile is_space (drop 3 (c # cs)) \<noteq> []"
    by (auto simp: match_date_def Let_def split: if_splits)
  have "length rest \<le> length (dropWhile is_space (drop 3 (c # cs)))"
    unfolding r by (rule length_dropWhile_le)
  moreover have "length (dropWhile is_space (drop 3 (c # cs))) \<le> length (drop 3 (c # cs))"
    by (rule length_dropWhile_le)
  moreover have "length (drop 3 (c # cs)) < length (c # cs)"
    by simp
  ultimately show "(rest, c # cs) \<in> measure length" by simp
next
  fix c :: char and cs :: string
  show "(cs, c # cs) \<in> measure length" by simp
qed

text \<open>
  \<^verbatim>\<open>title = title.replace("Reading", "").strip()\<close>
  \<^verbatim>\<open>return re.sub(r'(JAN|...|DEC)\s+\d+', '', title).strip()\<close>
\<close>

definition clean_page_title :: "string \<Rightarrow> string" where
  "clean_page_title title = strip (re_sub_date (strip (replace ''Reading'' [] title)))"

text \<open>A date token occurs somewhere in \<open>s\<close>.\<close>

fun has_date_token :: "string \<Rightarrow> bool" where
  "has_date_token [] = False"
| "has_date_token (c # cs) = (match_date (c # cs) \<noteq> None \<or> has_date_token cs)"

section \<open>Failures of the browser driver\<close>

text \<open>
  The exceptions the code distinguishes: \<open>StaleElementReferenceException\<close>,
  \<open>TimeoutException\<close>, and everything else that is an \<open>Exception\<close>, of which
  \<open>NoSuchElementException\<close> (raised by \<open>find_element\<close> on an element when nothing
  matches) is named apart.
\<close>

datatype error = StaleElementReference | Timeout | NoSuchElement | OtherException

text \<open>Sequencing of calls that may raise.\<close>

definition and_then :: "error + 'a \<Rightarrow> ('a \<Rightarrow> error + 'b) \<Rightarrow> error + 'b" where
  "and_then m f = (case m of Inl e \<Rightarrow> Inl e | Inr x \<Rightarrow> f x)"

section \<open>The resilient locator: \<open>wait_and_find_element\<close>\<close>

text \<open>
  The document is external. The argument \<open>lookup\<close> gives, for each attempt number, what the
  lookup of that attempt does (\<open>parent.find_element\<close> when a parent is given,
  \<open>WebDriverWait(...).until(...)\<close> otherwise): the node found, or the exception raised.
  The function returns the result together with the effects it had, in order: one
  \<open>Find\<close> per lookup and one \<open>Sleep 1\<close> per \<open>time.sleep(1)\<close>. The result
  \<open>Inr None\<close> is Python's \<open>None\<close>, returned when the loop body never runs.
\<close>

datatype event = Find | Sleep nat

function wait_loop :: "(nat \<Rightarrow> error + 'n) \<Rightarrow> nat \<Rightarrow> nat \<Rightarrow> (error + 'n option) \<times> event list" where
  "wait_loop lookup retries attempt =
     (if retries \<le> attempt then (Inr None, [])
      else (case lookup attempt of
          Inr element \<Rightarrow> (Inr (Some element), [Find])
        | Inl e \<Rightarrow>
            if e = StaleElementReference then
              (if attempt = retries - 1 then (Inl e, [Find])
               else (case wait_loop lookup retries (attempt + 1) of
                       (r, evs) \<Rightarrow> (r, Find # Sleep 1 # evs)))
            else if e = Timeout then (Inl e, [Find])
            else (Inl e, [Find])))"
  by pat_completeness auto
termination
  by (relation "measure (\<lambda>(lookup, retries, attempt). retries - attempt)") auto

declare wait_loop.simps [simp del]

definition wait_and_find_element :: "(nat \<Rightarrow> error + 'n) \<Rightarrow> nat \<Rightarrow> (error + 'n option) \<times> event list" where
  "wait_and_find_element lookup retries = wait_loop lookup retries 0"

section \<open>What the driver reports about a page\<close>

text \<open>
  Each record holds the answers of the driver for one node; every answer is either a value
  or the exception raised. The answers of a node do not change while the node is processed.
\<close>

record heading =
  descendant_count :: "error + nat"
  heading_text :: "error + string"

record element =
  tag_name :: "error + string"
  element_text :: "error + string"
  styled_paragraph_before :: "nat \<Rightarrow> error + heading"
  heading_before :: "nat \<Rightarrow> error + heading"
  list_items :: "error + (error + string) list"
  get_attribute :: "string \<Rightarrow> error + string option"

record page =
  active_page :: "nat \<Rightarrow> error + (error + string)"
  page_content :: "nat \<Rightarrow> error + (error + element list)"
  next_button :: "nat \<Rightarrow> error + (error + unit)"

section \<open>The title resolver: \<open>get_list_title\<close>\<close>

text \<open>
  \<open>styled_paragraph_before\<close> answers the lookup of the nearest preceding paragraph of
  class \<open>paragraphNumeroUno\<close>, \<open>heading_before\<close> the lookup of the nearest preceding
  \<open>h1\<close>..\<open>h6\<close>; \<open>descendant_count\<close> is \<open>len(prev_header.find_elements(".//*"))\<close>.
  Only \<open>TimeoutException\<close> and \<open>StaleElementReferenceException\<close> are caught.
\<close>

definition get_list_title :: "element \<Rightarrow> string \<Rightarrow> error + string" where
  "get_list_title element default_title =
     (case
        and_then (fst (wait_and_find_element (styled_paragraph_before element) 5)) (\<lambda>prev_header.
        and_then (case prev_header of
                    None \<Rightarrow> Inr None
                  | Some h \<Rightarrow>
                      and_then (descendant_count h) (\<lambda>n.
                        if n \<noteq> 1 then fst (wait_and_find_element (heading_before element) 5)
                        else Inr (Some h))) (\<lambda>prev_header.
        case prev_header of
          None \<Rightarrow> Inr default_title
        | Some h \<Rightarrow> and_then (heading_text h) (\<lambda>t. Inr (strip t))))
      of
        Inl e \<Rightarrow> if e = Timeout \<or> e = StaleElementReference then Inr default_title else Inl e
      | Inr title \<Rightarrow> Inr title)"

section \<open>The content classifier: \<open>extract_content\<close>\<close>

record page_state =
  page_data :: "string list"
  processed_sources :: "string set"

text \<open>\<open>any(list_title in recent_line for recent_line in page_data[-5:])\<close>.\<close>

definition duplicate_found :: "string \<Rightarrow> string list \<Rightarrow> bool" where
  "duplicate_found list_title pd = list_ex (contains list_title) (drop (length pd - 5) pd)"

text \<open>
  The loop over \<open>enumerate(page_data)\<close>: the first line that contains the title is
  replaced by \<open>f"### {line}"\<close>, and the loop breaks.
\<close>

fun promote :: "string \<Rightarrow> string list \<Rightarrow> string list" where
  "promote list_title [] = []"
| "promote list_title (line # lines) =
     (if contains list_title line then (''### '' @ line) # lines
      else line # promote list_title lines)"

text \<open>The loop over the \<open>li\<close> nodes; a failing \<open>li.text\<close> raises out of it.\<close>

fun collect_items :: "(error + string) list \<Rightarrow> error + string list" where
  "collect_items [] = Inr []"
| "collect_items (li # lis) =
     and_then li (\<lambda>t.
     and_then (collect_items lis) (\<lambda>rest.
       Inr (if strip t \<noteq> [] then (''- '' @ strip t) # rest else rest)))"

definition media_tags :: "string list" where
  "media_tags = [''img'', ''video'', ''source'', ''audio'', ''iframe'', ''embed'', ''object'']"

definition media_block :: "string \<Rightarrow> string \<Rightarrow> string" where
  "media_block tag src =
     (if tag = ''img'' then
        ''<img src='' @ [CHR 0x27] @ src @ [CHR 0x27] @ '' style='' @ [CHR 0x27]
          @ ''max-width: 350px; display: block; margin: auto;'' @ [CHR 0x27] @ ''>''
      else ''\<newline>- ['' @ capitalize tag @ '': '' @ src @ '']('' @ src @ '')\<newline>'')"

text \<open>
  The body of the \<open>try\<close> for one node returns the state it reached and the exception that
  ended it, if any: what was written to \<open>page_data\<close> before the exception stays written.
\<close>

definition process_list :: "element \<Rightarrow> page_state \<Rightarrow> page_state \<times> error option" where
  "process_list element st =
     (case get_list_title element ''Listed Items'' of
        Inl e \<Rightarrow> (st, Some e)
      | Inr list_title \<Rightarrow>
          (let dup = duplicate_found list_title (page_data st);
               st1 = (if dup then st\<lparr>page_data := promote list_title (page_data st)\<rparr> else st)
           in case and_then (list_items element) collect_items of
                Inl e \<Rightarrow> (st1, Some e)
              | Inr items \<Rightarrow>
                  if items \<noteq> [] then
                    (st1\<lparr>page_data := page_data st1
                         @ (if \<not> dup then [''### '' @ list_title] else []) @ items\<rparr>, None)
                  else (st1, None)))"

fun process_media :: "element \<Rightarrow> string \<Rightarrow> string list \<Rightarrow> page_state \<Rightarrow> page_state \<times> error option" where
  "process_media element tag [] st = (st, None)"
| "process_media element tag (attr # attrs) st =
     (case get_attribute element attr of
        Inl e \<Rightarrow> (st, Some e)
      | Inr None \<Rightarrow> process_media element tag attrs st
      | Inr (Some src) \<Rightarrow>
          if src \<noteq> [] \<and> src \<notin> processed_sources st then
            (st\<lparr>processed_sources := insert src (processed_sources st),
                page_data := page_data st @ [media_block tag src]\<rparr>, None)
          else process_media element tag attrs st)"

definition process_element :: "element \<Rightarrow> page_state \<Rightarrow> page_state \<times> error option" where
  "process_element element st =
     (case tag_name element of
        Inl e \<Rightarrow> (st, Some e)
      | Inr tag \<Rightarrow>
          if tag = ''p'' then
            (case element_text element of
               Inl e \<Rightarrow> (st, Some e)
             | Inr t \<Rightarrow> (st\<lparr>page_data := page_data st @ [strip t]\<rparr>, None))
          else if tag \<in> set [''ul'', ''ol''] then process_list element st
          else if tag \<in> set media_tags then
            process_media element tag [''src'', ''data-src'', ''href''] st
          else (st, None))"

text \<open>
  The loop over the nodes. Both handlers format \<open>element.tag_name\<close> into their log line
  before \<open>continue\<close>: when that read raises too, the exception leaves the loop and reaches
  the outer handler, and the blocks collected so far are returned.
\<close>

fun extract_loop :: "element list \<Rightarrow> page_state \<Rightarrow> page_state" where
  "extract_loop [] st = st"
| "extract_loop (element # elements) st =
     (case process_element element st of
        (st', None) \<Rightarrow> extract_loop elements st'
      | (st', Some e) \<Rightarrow>
          (case tag_name element of
             Inl e' \<Rightarrow> st'
           | Inr tag \<Rightarrow> extract_loop elements st'))"

text \<open>\<open>page_data = []\<close> and \<open>processed_sources = set()\<close>.\<close>

definition start_of_page :: page_state where
  "start_of_page = \<lparr>page_data = [], processed_sources = {}\<rparr>"

definition extract_content :: "page \<Rightarrow> string list" where
  "extract_content pg =
     (case and_then (fst (wait_and_find_element (page_content pg) 5)) (\<lambda>region.
             case region of None \<Rightarrow> Inl OtherException | Some elements \<Rightarrow> elements) of
        Inl e \<Rightarrow> []
      | Inr elements \<Rightarrow>
          page_data (extract_loop elements start_of_page))"

section \<open>The pagination controller\<close>

definition get_active_page_title :: "page \<Rightarrow> error + string" where
  "get_active_page_title pg =
     (case and_then (fst (wait_and_find_element (active_page pg) 5)) (\<lambda>active.
             case active of
               None \<Rightarrow> Inl OtherException
             | Some node_text \<Rightarrow> and_then node_text (\<lambda>t. Inr (strip t))) of
        Inl e \<Rightarrow> Inr ''Unknown Module Title''
      | Inr title \<Rightarrow> Inr title)"

definition click_next_button :: "page \<Rightarrow> error + bool" where
  "click_next_button pg =
     (case and_then (fst (wait_and_find_element (next_button pg) 5)) (\<lambda>button.
             case button of
               None \<Rightarrow> Inl OtherException
             | Some click \<Rightarrow> and_then click (\<lambda>_. Inr True)) of
        Inl e \<Rightarrow> if e = Timeout then Inr False else Inr False
      | Inr b \<Rightarrow> Inr b)"

record scraper =
  previous_title :: "string option"
  module_number :: int
  md_file :: "string list"

definition section_header :: "int \<Rightarrow> string \<Rightarrow> string" where
  "section_header n title = ''# Module '' @ str_int n @ '': '' @ title @ ''\<newline>\<newline>''"

text \<open>\<open>md_file\<close> is the sequence of strings passed to \<open>file.write\<close>, in order.\<close>

definition write_content_to_file :: "scraper \<Rightarrow> string \<Rightarrow> string list \<Rightarrow> scraper" where
  "write_content_to_file self title content =
     (let self1 =
            (if Some title \<noteq> previous_title self then
               self\<lparr>md_file := md_file self @ [section_header (module_number self) title],
                    module_number := module_number self + 1,
                    previous_title := Some title\<rparr>
             else self)
      in self1\<lparr>md_file := md_file self1 @ [join ''\<newline>\<newline>'' content, ''\<newline>\<newline>'']\<rparr>)"

text \<open>
  A run ends with the log line "Content extraction completed successfully" or with
  "Scraping failed".
\<close>

datatype outcome = Completed scraper | Failed error scraper

text \<open>
  The \<open>while True\<close> loop over the pages the browser shows, one list entry per iteration.
  The result is \<open>None\<close> when the loop has not ended within the pages given.
\<close>

fun scrape_loop :: "page list \<Rightarrow> scraper \<Rightarrow> outcome option" where
  "scrape_loop [] self = None"
| "scrape_loop (pg # pgs) self =
     (case get_active_page_title pg of
        Inl e \<Rightarrow> Some (Failed e self)
      | Inr page_title \<Rightarrow>
          if \<not> contains ''Reading'' page_title then
            (case click_next_button pg of
               Inl e \<Rightarrow> Some (Failed e self)
             | Inr advanced \<Rightarrow> if \<not> advanced then Some (Completed self) else scrape_loop pgs self)
          else
            (let content = extract_content pg;
                 self1 = (if content \<noteq> [] then
                            write_content_to_file self (clean_page_title page_title) content
                          else self)
             in case click_next_button pg of
                  Inl e \<Rightarrow> Some (Failed e self1)
                | Inr advanced \<Rightarrow> if \<not> advanced then Some (Completed self1) else scrape_loop pgs self1))"

definition new_scraper :: scraper where
  "new_scraper = \<lparr>previous_title = None, module_number = 1, md_file = []\<rparr>"

text \<open>\<open>driver_setup\<close> is what \<open>setup_chrome_driver\<close> does: it returns or raises.\<close>

definition scrape_content :: "error + unit \<Rightarrow> page list \<Rightarrow> outcome option" where
  "scrape_content driver_setup pgs =
     (case driver_setup of
        Inl e \<Rightarrow> Some (Failed e new_scraper)
      | Inr _ \<Rightarrow> scrape_loop pgs new_scraper)"

section \<open>Auxiliary notions and sample inputs\<close>

text \<open>A string with no white space at either end.\<close>

definition trimmed :: "string \<Rightarrow> bool" where
  "trimmed s \<longleftrightarrow> s = [] \<or> (\<not> is_space (hd s) \<and> \<not> is_space (last s))"

text \<open>The effects of a lookup that succeeds or gives up after \<open>k\<close> retries.\<close>

definition backoff_trace :: "nat \<Rightarrow> event list" where
  "backoff_trace k = concat (replicate k [Find, Sleep 1]) @ [Find]"

text \<open>A lookup that meets a stale reference \<open>k\<close> times and then answers \<open>r\<close>.\<close>

definition stale_then :: "nat \<Rightarrow> error + 'n \<Rightarrow> nat \<Rightarrow> error + 'n" where
  "stale_then k r attempt = (if attempt < k then Inl StaleElementReference else r)"

text \<open>Lookups that find nothing, and lookups that find their node at once.\<close>

definition absent :: "nat \<Rightarrow> error + 'n" where
  "absent attempt = Inl NoSuchElement"

definition present :: "'n \<Rightarrow> nat \<Rightarrow> error + 'n" where
  "present n attempt = Inr n"

definition plain_heading :: "string \<Rightarrow> heading" where
  "plain_heading t = \<lparr>descendant_count = Inr 1, heading_text = Inr t\<rparr>"

definition node :: "string \<Rightarrow> element" where
  "node tag = \<lparr>tag_name = Inr tag, element_text = Inr [], styled_paragraph_before = absent,
     heading_before = absent, list_items = Inr [], get_attribute = (\<lambda>a. Inr None)\<rparr>"

definition p_node :: "string \<Rightarrow> element" where
  "p_node t = (node ''p'')\<lparr>element_text := Inr t\<rparr>"

definition titled_list :: "string \<Rightarrow> string list \<Rightarrow> element" where
  "titled_list title items = (node ''ul'')\<lparr>styled_paragraph_before := present (plain_heading title),
     list_items := Inr (map Inr items)\<rparr>"

definition media :: "string \<Rightarrow> (string \<times> string) list \<Rightarrow> element" where
  "media tag attrs = (node tag)\<lparr>get_attribute := (\<lambda>a. Inr (map_of attrs a))\<rparr>"

definition shown_page :: "string \<Rightarrow> element list \<Rightarrow> bool \<Rightarrow> page" where
  "shown_page title elements has_next =
     \<lparr>active_page = present (Inr title), page_content = present (Inr elements),
      next_button = (if has_next then present (Inr ()) else (\<lambda>attempt. Inl Timeout))\<rparr>"

text \<open>What the pages themselves contribute to the file: the joined blocks and a blank line.\<close>

definition page_writes :: "string list list \<Rightarrow> string list" where
  "page_writes contents =
     concat (map (\<lambda>content. [join ''\<newline>\<newline>'' content, ''\<newline>\<newline>'']) contents)"

text \<open>
  What a page contributes to the document: its normalised title and its blocks, when the
  page identity has the marker and the extraction yields at least one block; nothing
  otherwise.
\<close>

definition contribution :: "page \<Rightarrow> (string \<times> string list) option" where
  "contribution pg =
     (case get_active_page_title pg of
        Inl e \<Rightarrow> None
      | Inr page_title \<Rightarrow>
          if contains ''Reading'' page_title \<and> extract_content pg \<noteq> []
          then Some (clean_page_title page_title, extract_content pg)
          else None)"

fun contributions :: "page list \<Rightarrow> (string \<times> string list) list" where
  "contributions [] = []"
| "contributions (pg # pgs) =
     (case contribution pg of
        None \<Rightarrow> contributions pgs
      | Some c \<Rightarrow> c # contributions pgs)"

text \<open>
  The pages the loop goes through: up to and including the first page whose advance fails.
  \<open>None\<close> when no page of the list is one.
\<close>

fun visited :: "page list \<Rightarrow> page list option" where
  "visited [] = None"
| "visited (pg # pgs) =
     (if click_next_button pg = Inr True
      then (case visited pgs of None \<Rightarrow> None | Some vs \<Rightarrow> Some (pg # vs))
      else Some [pg])"

text \<open>Successive calls of \<open>write_content_to_file\<close>.\<close>

fun write_all :: "scraper \<Rightarrow> (string \<times> string list) list \<Rightarrow> scraper" where
  "write_all self [] = self"
| "write_all self ((title, content) # rest) =
     write_all (write_content_to_file self title content) rest"

text \<open>
  The contributions, grouped into the maximal runs of consecutive contributions with the
  same title, and the document laid out as one section per group: a header with the
  section's number, then the blocks of the group's pages.
\<close>

fun group_titles :: "(string \<times> string list) list \<Rightarrow> (string \<times> string list list) list" where
  "group_titles [] = []"
| "group_titles ((title, content) # rest) =
     (case group_titles rest of
        [] \<Rightarrow> [(title, [content])]
      | (title', contents) # groups \<Rightarrow>
          if title = title' then (title, content # contents) # groups
          else (title, [content]) # (title', contents) # groups)"

fun sections :: "int \<Rightarrow> (string \<times> string list list) list \<Rightarrow> string list" where
  "sections n [] = []"
| "sections n ((title, contents) # groups) =
     section_header n title # page_writes contents @ sections (n + 1) groups"

definition four_pages :: "page list" where
  "four_pages = [shown_page ''JAN 5 Reading A'' [p_node ''x''] True,
                 shown_page ''Overview'' [p_node ''skipped''] True,
                 shown_page ''Reading B'' [] True,
                 shown_page ''FEB 7 Reading A'' [p_node ''z''] False]"

definition seven_blocks :: page_state where
  "seven_blocks =
     \<lparr>page_data = [''Key Terms of the week'', ''a'', ''b'', ''c'', ''d'', ''e'', ''see Key Terms''],
      processed_sources = {}\<rparr>"

definition failing_click_page :: page where
  "failing_click_page = (shown_page ''Reading Intro'' [p_node ''Hello''] True)
       \<lparr>next_button := present (Inl OtherException)\<rparr>"

definition unreadable_page :: page where
  "unreadable_page = (shown_page ''Reading Intro'' [p_node ''Hello''] False)
       \<lparr>active_page := (\<lambda>attempt. Inl Timeout)\<rparr>"

text \<open>
  Notions for the media blocks of a page. A node is reached when the tag names of the nodes
  before it can be read; the loop ends at the first node whose tag name cannot. An attribute
  value is usable when it is present, non-empty and not among the sources seen so far;
  \<open>first_usable\<close> is the first usable value in the order \<open>src\<close>, \<open>data-src\<close>,
  \<open>href\<close> (none when a read raises before one is found), so that \<open>first_usable el {}\<close>
  is the first non-empty attribute of the node. \<open>sources_after els\<close> is the set of sources
  recorded once the nodes \<open>els\<close> have been processed.
\<close>

definition tag_of :: "element \<Rightarrow> string" where
  "tag_of el = (case tag_name el of Inl e \<Rightarrow> [] | Inr tag \<Rightarrow> tag)"

definition is_media :: "element \<Rightarrow> bool" where
  "is_media el \<longleftrightarrow> (case tag_name el of Inl e \<Rightarrow> False | Inr tag \<Rightarrow> tag \<in> set media_tags)"

definition tag_readable :: "element \<Rightarrow> bool" where
  "tag_readable el \<longleftrightarrow> (case tag_name el of Inl e \<Rightarrow> False | Inr tag \<Rightarrow> True)"

definition usable :: "string set \<Rightarrow> string option \<Rightarrow> bool" where
  "usable seen v \<longleftrightarrow> (case v of None \<Rightarrow> False | Some src \<Rightarrow> src \<noteq> [] \<and> src \<notin> seen)"

definition first_usable :: "element \<Rightarrow> string set \<Rightarrow> string option" where
  "first_usable el seen =
     (case get_attribute el ''src'' of
        Inl e \<Rightarrow> None
      | Inr v1 \<Rightarrow>
          if usable seen v1 then v1
          else (case get_attribute el ''data-src'' of
                  Inl e \<Rightarrow> None
                | Inr v2 \<Rightarrow>
                    if usable seen v2 then v2
                    else (case get_attribute el ''href'' of
                            Inl e \<Rightarrow> None
                          | Inr v3 \<Rightarrow> if usable seen v3 then v3 else None)))"

definition sources_after :: "element list \<Rightarrow> string set" where
  "sources_after els = processed_sources (extract_loop els start_of_page)"

definition mixed_pre :: "element list" where
  "mixed_pre = [p_node ''a.png'',
                media ''img'' [(''src'', ''a.png'')],
                titled_list ''T'' [''i''],
                media ''img'' [(''data-src'', ''a.png'')]]"

definition clip :: element where
  "clip = media ''video'' [(''src'', ''a.png''), (''href'', ''b.mp4'')]"

section \<open>Title normalisation\<close>

lemma last_dropWhile_keep: "dropWhile P xs \<noteq> [] \<Longrightarrow> last (dropWhile P xs) = last xs"
proof -
  assume ne: "dropWhile P xs \<noteq> []"
  have "xs = takeWhile P xs @ dropWhile P xs" by simp
  then have "last xs = last (takeWhile P xs @ dropWhile P xs)" by simp
  also have "\<dots> = last (dropWhile P xs)" using ne by (rule last_appendR)
  finally show ?thesis by simp
qed

lemma trimmed_strip: "trimmed (strip s)"
proof (cases "strip s = []")
  case True
  then show ?thesis by (simp add: trimmed_def)
next
  case False
  define t where "t = dropWhile is_space s"
  define u where "u = dropWhile is_space (rev t)"
  have su: "strip s = rev u" by (simp add: strip_def t_def u_def)
  with False have une: "u \<noteq> []" by simp
  then have hu: "\<not> is_space (hd u)" unfolding u_def by (rule hd_dropWhile)
  have "last u = last (rev t)" using une unfolding u_def by (rule last_dropWhile_keep)
  moreover have tne: "t \<noteq> []" using une unfolding u_def by auto
  ultimately have lu: "last u = hd t" by (simp add: last_rev)
  have "\<not> is_space (hd t)" using tne unfolding t_def by (rule hd_dropWhile)
  with lu have "\<not> is_space (last u)" by simp
  with hu une show ?thesis by (simp add: trimmed_def su hd_rev last_rev)
qed

lemma strip_trimmed: "trimmed s \<Longrightarrow> strip s = s"
proof (cases "s = []")
  case True
  then show ?thesis by (simp add: strip_def)
next
  case False
  assume "trimmed s"
  with False have h: "\<not> is_space (hd s)" and l: "\<not> is_space (last s)"
    by (auto simp: trimmed_def)
  from h False have 1: "dropWhile is_space s = s" by (simp add: dropWhile_eq_self_iff)
  from l False have 2: "dropWhile is_space (rev s) = rev s"
    by (simp add: dropWhile_eq_self_iff hd_rev)
  show ?thesis by (simp add: strip_def 1 2)
qed

lemma replace_absent:
  "old \<noteq> [] \<Longrightarrow> \<not> contains old s \<Longrightarrow> replace old new s = s"
  by (induction s) auto

lemma re_sub_date_absent:
  "\<not> has_date_token s \<Longrightarrow> re_sub_date s = s"
  by (induction s) auto

lemma trimmed_clean: "trimmed (clean_page_title x)"
  unfolding clean_page_title_def by (rule trimmed_strip)

text \<open>
  C3, as stated: \<open>clean_page_title (clean_page_title x) = clean_page_title x\<close> for every
  \<open>x\<close>. It fails: removing the inner marker of \<open>ReaReadingding\<close> leaves the marker
  \<open>Reading\<close>, which the second pass removes.
\<close>

theorem clean_page_title_not_idempotent:
  "clean_page_title ''ReaReadingding'' = ''Reading''
   \<and> clean_page_title (clean_page_title ''ReaReadingding'') = []
   \<and> clean_page_title (clean_page_title ''ReaReadingding'') \<noteq> clean_page_title ''ReaReadingding''"
  by code_simp

text \<open>
  C3, amended: for every \<open>x\<close> whose normalised title contains neither the marker
  \<open>Reading\<close> nor a date token, normalising again changes nothing.
\<close>

theorem clean_page_title_idempotent_when_clean:
  assumes "\<not> contains ''Reading'' (clean_page_title x)"
    and "\<not> has_date_token (clean_page_title x)"
  shows "clean_page_title (clean_page_title x) = clean_page_title x"
proof -
  let ?y = "clean_page_title x"
  have t: "strip ?y = ?y" using trimmed_clean by (rule strip_trimmed)
  have "replace ''Reading'' [] ?y = ?y" using assms(1) by (simp add: replace_absent)
  moreover have "re_sub_date ?y = ?y" using assms(2) by (rule re_sub_date_absent)
  ultimately have "clean_page_title ?y = strip (strip ?y)"
    unfolding clean_page_title_def[of ?y] by (simp add: t)
  then show ?thesis by (simp add: t)
qed

theorem clean_page_title_idempotent_witness:
  "clean_page_title ''JAN 5 Reading Intro'' = ''Intro''
   \<and> clean_page_title (clean_page_title ''JAN 5 Reading Intro'') = ''Intro''"
proof -
  have c: "clean_page_title ''JAN 5 Reading Intro'' = ''Intro''" by code_simp
  have 1: "\<not> contains ''Reading'' (clean_page_title ''JAN 5 Reading Intro'')"
    unfolding c by code_simp
  have 2: "\<not> has_date_token (clean_page_title ''JAN 5 Reading Intro'')"
    unfolding c by code_simp
  from clean_page_title_idempotent_when_clean [OF 1 2] c show ?thesis by simp
qed

section \<open>The resilient locator\<close>

lemma wait_loop_settles:
  "attempt + k < retries \<Longrightarrow> \<forall>j<k. lookup (attempt + j) = Inl StaleElementReference \<Longrightarrow>
   lookup (attempt + k) \<noteq> Inl StaleElementReference \<Longrightarrow>
   wait_loop lookup retries attempt =
     (case lookup (attempt + k) of Inl e \<Rightarrow> Inl e | Inr n \<Rightarrow> Inr (Some n), backoff_trace k)"
proof (induction k arbitrary: attempt)
  case 0
  then show ?case
    by (subst wait_loop.simps) (auto simp: backoff_trace_def split: sum.splits)
next
  case (Suc k)
  from Suc.prems(2) have s0: "lookup attempt = Inl StaleElementReference" by force
  have "\<forall>j<k. lookup (Suc attempt + j) = Inl StaleElementReference"
    using Suc.prems(2) by (metis Suc_less_eq add_Suc_shift)
  with Suc.prems have ih: "wait_loop lookup retries (Suc attempt) =
     (case lookup (Suc attempt + k) of Inl e \<Rightarrow> Inl e | Inr n \<Rightarrow> Inr (Some n), backoff_trace k)"
    by (intro Suc.IH) auto
  from Suc.prems(1) have ne: "attempt \<noteq> retries - 1" "\<not> retries \<le> attempt" by auto
  show ?case
    using ne by (subst wait_loop.simps) (simp add: s0 ih backoff_trace_def)
qed

lemma wait_loop_exhausts:
  "attempt + k < retries \<Longrightarrow> retries = Suc (attempt + k) \<Longrightarrow>
   \<forall>j\<le>k. lookup (attempt + j) = Inl StaleElementReference \<Longrightarrow>
   wait_loop lookup retries attempt = (Inl StaleElementReference, backoff_trace k)"
proof (induction k arbitrary: attempt)
  case 0
  then show ?case
    by (subst wait_loop.simps) (auto simp: backoff_trace_def)
next
  case (Suc k)
  from Suc.prems(3) have s0: "lookup attempt = Inl StaleElementReference" by force
  have "\<forall>j\<le>k. lookup (Suc attempt + j) = Inl StaleElementReference"
    using Suc.prems(3) by (metis Suc_le_mono add_Suc_shift)
  with Suc.prems have ih: "wait_loop lookup retries (Suc attempt) = (Inl StaleElementReference, backoff_trace k)"
    by (intro Suc.IH) auto
  from Suc.prems(1) have ne: "attempt \<noteq> retries - 1" "\<not> retries \<le> attempt" by auto
  show ?case
    using ne by (subst wait_loop.simps) (simp add: s0 ih backoff_trace_def)
qed

text \<open>
  C7: the locator retries after a stale reference only. While the lookups keep meeting a
  stale reference it looks again after a sleep of one second, at most \<open>retries - 1\<close>
  times, and the stale reference of the last attempt is raised. The first lookup that ends
  otherwise ends the call: a node is returned, and a timeout (or any other exception) is
  raised at once, with no further lookup and no sleep after it.
\<close>

theorem wait_and_find_element_retries_only_stale:
  "(\<forall>k n. k < retries \<and> (\<forall>j<k. lookup j = Inl StaleElementReference) \<and> lookup k = Inr n \<longrightarrow>
       wait_and_find_element lookup retries = (Inr (Some n), backoff_trace k))
   \<and> (\<forall>k e. k < retries \<and> (\<forall>j<k. lookup j = Inl StaleElementReference) \<and> lookup k = Inl e
         \<and> e \<noteq> StaleElementReference \<longrightarrow>
       wait_and_find_element lookup retries = (Inl e, backoff_trace k))
   \<and> (0 < retries \<and> (\<forall>j<retries. lookup j = Inl StaleElementReference) \<longrightarrow>
       wait_and_find_element lookup retries = (Inl StaleElementReference, backoff_trace (retries - 1)))"
proof (intro conjI allI impI)
  fix k n
  assume a: "k < retries \<and> (\<forall>j<k. lookup j = Inl StaleElementReference) \<and> lookup k = Inr n"
  then show "wait_and_find_element lookup retries = (Inr (Some n), backoff_trace k)"
    using wait_loop_settles [of 0 k retries lookup] by (simp add: wait_and_find_element_def)
next
  fix k e
  assume a: "k < retries \<and> (\<forall>j<k. lookup j = Inl StaleElementReference) \<and> lookup k = Inl e
     \<and> e \<noteq> StaleElementReference"
  then show "wait_and_find_element lookup retries = (Inl e, backoff_trace k)"
    using wait_loop_settles [of 0 k retries lookup] by (simp add: wait_and_find_element_def)
next
  assume a: "0 < retries \<and> (\<forall>j<retries. lookup j = Inl StaleElementReference)"
  then have "\<forall>j\<le>retries - 1. lookup (0 + j) = Inl StaleElementReference"
    by auto
  with a show "wait_and_find_element lookup retries = (Inl StaleElementReference, backoff_trace (retries - 1))"
    using wait_loop_exhausts [of 0 "retries - 1" retries lookup] by (simp add: wait_and_find_element_def)
qed

theorem wait_and_find_element_retries_only_stale_witness:
  "wait_and_find_element (stale_then 2 (Inr ''node'')) 5
     = (Inr (Some ''node''), [Find, Sleep 1, Find, Sleep 1, Find])
   \<and> wait_and_find_element (stale_then 0 (Inl Timeout :: error + string)) 5 = (Inl Timeout, [Find])
   \<and> wait_and_find_element (stale_then 7 (Inr ''node'')) 3
     = (Inl StaleElementReference, [Find, Sleep 1, Find, Sleep 1, Find])"
proof -
  have t2: "backoff_trace 2 = [Find, Sleep 1, Find, Sleep 1, Find]"
    and t0: "backoff_trace 0 = [Find]"
    by (simp_all add: backoff_trace_def numeral_2_eq_2)
  have 1: "(2::nat) < 5 \<and> (\<forall>j<2. stale_then 2 (Inr ''node'') j = Inl StaleElementReference)
      \<and> stale_then 2 (Inr ''node'') 2 = Inr ''node''"
    by (simp add: stale_then_def)
  have 2: "(0::nat) < 5 \<and> (\<forall>j<0. stale_then 0 (Inl Timeout :: error + string) j = Inl StaleElementReference)
      \<and> stale_then 0 (Inl Timeout :: error + string) 0 = Inl Timeout \<and> Timeout \<noteq> StaleElementReference"
    by (simp add: stale_then_def)
  have 3: "(0::nat) < 3 \<and> (\<forall>j<3. stale_then 7 (Inr ''node'') j = Inl StaleElementReference)"
    by (simp add: stale_then_def)
  from wait_and_find_element_retries_only_stale [of 5 "stale_then 2 (Inr ''node'')"] 1
  have a: "wait_and_find_element (stale_then 2 (Inr ''node'')) 5 = (Inr (Some ''node''), backoff_trace 2)"
    by blast
  from wait_and_find_element_retries_only_stale [of 5 "stale_then 0 (Inl Timeout :: error + string)"] 2
  have b: "wait_and_find_element (stale_then 0 (Inl Timeout :: error + string)) 5 = (Inl Timeout, backoff_trace 0)"
    by blast
  from wait_and_find_element_retries_only_stale [of 3 "stale_then 7 (Inr ''node'')"] 3
  have c: "wait_and_find_element (stale_then 7 (Inr ''node'')) 3 = (Inl StaleElementReference, backoff_trace (3 - 1))"
    by blast
  from a b c t2 t0 show ?thesis by simp
qed

section \<open>The pagination controller\<close>

lemma click_next_button_total:
  "click_next_button pg = Inr True \<or> click_next_button pg = Inr False"
  by (auto simp: click_next_button_def and_then_def split: sum.splits option.splits)

lemma get_active_page_title_total: "\<exists>t. get_active_page_title pg = Inr t"
  by (auto simp: get_active_page_title_def split: sum.splits)

lemma scrape_loop_skip:
  assumes "get_active_page_title pg = Inr t" and "\<not> contains ''Reading'' t"
  shows "scrape_loop (pg # pgs) self =
     (if click_next_button pg = Inr True then scrape_loop pgs self else Some (Completed self))"
  using assms click_next_button_total [of pg] by auto

lemma get_active_page_title_page_content [simp]:
  "get_active_page_title (pg\<lparr>page_content := c\<rparr>) = get_active_page_title pg"
  by (simp add: get_active_page_title_def)

lemma click_next_button_page_content [simp]:
  "click_next_button (pg\<lparr>page_content := c\<rparr>) = click_next_button pg"
  by (simp add: click_next_button_def)

text \<open>
  C6: a page whose identity lacks the marker \<open>Reading\<close> leaves the scraper and its file
  as they were: the loop goes on with the next page when the advance succeeds and ends the
  run otherwise. The content region of the page is never consulted: whatever it holds, the
  run is the same.
\<close>

theorem non_reading_page_is_skipped:
  assumes "get_active_page_title pg = Inr t" and "\<not> contains ''Reading'' t"
  shows "scrape_loop (pg # pgs) self =
           (if click_next_button pg = Inr True then scrape_loop pgs self else Some (Completed self))
         \<and> (\<forall>c. scrape_loop (pg\<lparr>page_content := c\<rparr> # pgs) self = scrape_loop (pg # pgs) self)"
proof -
  have 1: "scrape_loop (pg # pgs) self =
           (if click_next_button pg = Inr True then scrape_loop pgs self else Some (Completed self))"
    using assms by (rule scrape_loop_skip)
  have "scrape_loop (pg\<lparr>page_content := c\<rparr> # pgs) self = scrape_loop (pg # pgs) self" for c
  proof -
    have "get_active_page_title (pg\<lparr>page_content := c\<rparr>) = Inr t" using assms(1) by simp
    from scrape_loop_skip [OF this assms(2)] 1 show ?thesis by simp
  qed
  with 1 show ?thesis by blast
qed

theorem non_reading_page_is_skipped_witness:
  "scrape_loop [shown_page ''Overview'' [p_node ''Hello''] True,
                shown_page ''Reading Intro'' [p_node ''World''] False] new_scraper
     = scrape_loop [shown_page ''Reading Intro'' [p_node ''World''] False] new_scraper
   \<and> scrape_loop [shown_page ''Overview'' [p_node ''Hello''] False] new_scraper
     = Some (Completed new_scraper)"
proof -
  have t: "get_active_page_title (shown_page ''Overview'' [p_node ''Hello''] b) = Inr ''Overview''" for b
    by code_simp
  have n: "\<not> contains ''Reading'' ''Overview''" by code_simp
  have c1: "click_next_button (shown_page ''Overview'' [p_node ''Hello''] True) = Inr True"
    by code_simp
  have c2: "click_next_button (shown_page ''Overview'' [p_node ''Hello''] False) \<noteq> Inr True"
    by code_simp
  from non_reading_page_is_skipped [OF t n] c1 c2 show ?thesis by simp
qed

text \<open>
  C8: \<open>click_next_button\<close> never raises; it returns \<open>False\<close> whenever locating the
  control raises (a timeout or anything else) or the click raises, and the loop then ends
  with the run completed, not failed.
\<close>

theorem advance_failure_ends_run_normally:
  "(click_next_button pg = Inr True \<or> click_next_button pg = Inr False)
   \<and> ((\<exists>e. fst (wait_and_find_element (next_button pg) 5) = Inl e)
        \<or> (\<exists>e. fst (wait_and_find_element (next_button pg) 5) = Inr (Some (Inl e)))
      \<longrightarrow> click_next_button pg = Inr False
          \<and> (\<exists>self'. scrape_loop (pg # pgs) self = Some (Completed self')))"
proof (intro conjI impI)
  show "click_next_button pg = Inr True \<or> click_next_button pg = Inr False"
    by (rule click_next_button_total)
next
  assume "(\<exists>e. fst (wait_and_find_element (next_button pg) 5) = Inl e)
        \<or> (\<exists>e. fst (wait_and_find_element (next_button pg) 5) = Inr (Some (Inl e)))"
  then show f: "click_next_button pg = Inr False"
    by (auto simp: click_next_button_def and_then_def)
  obtain t where t: "get_active_page_title pg = Inr t"
    using get_active_page_title_total by blast
  show "\<exists>self'. scrape_loop (pg # pgs) self = Some (Completed self')"
    using t f by (simp add: Let_def)
qed

theorem advance_failure_ends_run_normally_witness:
  "click_next_button failing_click_page = Inr False
   \<and> scrape_loop [failing_click_page] new_scraper
     = Some (Completed \<lparr>previous_title = Some ''Intro'', module_number = 2,
                md_file = [''# Module 1: Intro\<newline>\<newline>'', ''Hello'', ''\<newline>\<newline>'']\<rparr>)
   \<and> click_next_button (shown_page ''Overview'' [] False) = Inr False
   \<and> scrape_loop [shown_page ''Overview'' [] False] new_scraper = Some (Completed new_scraper)"
proof -
  have 1: "fst (wait_and_find_element (next_button failing_click_page) 5) = Inr (Some (Inl OtherException))"
    by code_simp
  have 2: "fst (wait_and_find_element (next_button (shown_page ''Overview'' [] False)) 5) = Inl Timeout"
    by code_simp
  have a: "click_next_button failing_click_page = Inr False"
    using advance_failure_ends_run_normally [of failing_click_page] 1 by blast
  have b: "click_next_button (shown_page ''Overview'' [] False) = Inr False"
    using advance_failure_ends_run_normally [of "shown_page ''Overview'' [] False"] 2 by blast
  have t1: "get_active_page_title failing_click_page = Inr ''Reading Intro''" by code_simp
  have e1: "extract_content failing_click_page = [''Hello'']" by code_simp
  have r1: "contains ''Reading'' ''Reading Intro''" by code_simp
  have k1: "clean_page_title ''Reading Intro'' = ''Intro''" by code_simp
  have w1: "write_content_to_file new_scraper ''Intro'' [''Hello''] =
      \<lparr>previous_title = Some ''Intro'', module_number = 2,
                md_file = [''# Module 1: Intro\<newline>\<newline>'', ''Hello'', ''\<newline>\<newline>'']\<rparr>"
    by code_simp
  have t2: "get_active_page_title (shown_page ''Overview'' [] False) = Inr ''Overview''" by code_simp
  have r2: "\<not> contains ''Reading'' ''Overview''" by code_simp
  show ?thesis using a b t1 e1 r1 k1 w1 t2 r2 by (simp add: Let_def)
qed

text \<open>
  C9: when locating the active page entry or reading its text raises,
  \<open>get_active_page_title\<close> returns \<open>Unknown Module Title\<close>. That string lacks the
  marker, so the page is skipped like any page without it: nothing is extracted or written,
  and the loop advances or ends the run as completed.
\<close>

theorem identity_read_failure_is_skipped:
  assumes "(\<exists>e. fst (wait_and_find_element (active_page pg) 5) = Inl e)
        \<or> (\<exists>e. fst (wait_and_find_element (active_page pg) 5) = Inr (Some (Inl e)))"
  shows "get_active_page_title pg = Inr ''Unknown Module Title''
     \<and> \<not> contains ''Reading'' ''Unknown Module Title''
     \<and> scrape_loop (pg # pgs) self =
           (if click_next_button pg = Inr True then scrape_loop pgs self else Some (Completed self))"
proof -
  have t: "get_active_page_title pg = Inr ''Unknown Module Title''"
    using assms by (auto simp: get_active_page_title_def and_then_def)
  have n: "\<not> contains ''Reading'' ''Unknown Module Title''" by code_simp
  from scrape_loop_skip [OF t n] t n show ?thesis by blast
qed

theorem identity_read_failure_is_skipped_witness:
  "get_active_page_title unreadable_page = Inr ''Unknown Module Title''
   \<and> scrape_loop [unreadable_page] new_scraper = Some (Completed new_scraper)"
proof -
  have 1: "fst (wait_and_find_element (active_page unreadable_page) 5) = Inl Timeout"
    by code_simp
  have c: "click_next_button unreadable_page \<noteq> Inr True" by code_simp
  from identity_read_failure_is_skipped [of unreadable_page "[]" new_scraper] 1 c
  show ?thesis by (simp del: scrape_loop.simps)
qed

section \<open>The output assembler\<close>

text \<open>
  C1, as stated: one header per normalised title in the whole document, also when the pages
  with that title are not adjacent. It fails: the header is compared with the title written
  last only, so the run of pages A, B, A writes a header for A twice.
\<close>

theorem non_adjacent_title_gets_second_header:
  "scrape_content (Inr ())
     [shown_page ''Reading A'' [p_node ''x''] True,
      shown_page ''Reading B'' [p_node ''y''] True,
      shown_page ''Reading A'' [p_node ''z''] False]
   = Some (Completed \<lparr>previous_title = Some ''A'', module_number = 4,
        md_file = [''# Module 1: A\<newline>\<newline>'', ''x'', ''\<newline>\<newline>'',
                   ''# Module 2: B\<newline>\<newline>'', ''y'', ''\<newline>\<newline>'',
                   ''# Module 3: A\<newline>\<newline>'', ''z'', ''\<newline>\<newline>'']\<rparr>)"
  by code_simp

lemma scrape_loop_visited:
  "scrape_loop pgs self =
     (case visited pgs of
        None \<Rightarrow> None
      | Some vs \<Rightarrow> Some (Completed (write_all self (contributions vs))))"
proof (induction pgs arbitrary: self)
  case Nil
  then show ?case by simp
next
  case (Cons pg pgs)
  obtain t where t: "get_active_page_title pg = Inr t"
    using get_active_page_title_total by blast
  show ?case
  proof (cases "contains ''Reading'' t \<and> extract_content pg \<noteq> []")
    case True
    then have c: "contribution pg = Some (clean_page_title t, extract_content pg)"
      by (simp add: contribution_def t)
    show ?thesis
      using click_next_button_total [of pg] True t c
      by (auto simp: Let_def Cons.IH split: option.splits)
  next
    case False
    then have c: "contribution pg = None"
      by (simp add: contribution_def t)
    show ?thesis
      using click_next_button_total [of pg] False t c
      by (auto simp: Let_def Cons.IH split: option.splits)
  qed
qed

lemma page_writes_Cons:
  "page_writes (c # cs) = join ''\<newline>\<newline>'' c # ''\<newline>\<newline>'' # page_writes cs"
  by (simp add: page_writes_def)

lemma write_all_groups:
  "md_file (write_all self cs) = md_file self @
     (case group_titles cs of
        [] \<Rightarrow> []
      | (t, bs) # gs \<Rightarrow>
          if previous_title self = Some t
          then page_writes bs @ sections (module_number self) gs
          else sections (module_number self) ((t, bs) # gs))"
proof (induction cs arbitrary: self)
  case Nil
  then show ?case by simp
next
  case (Cons c rest)
  obtain t b where c: "c = (t, b)" by (cases c)
  let ?s = "write_content_to_file self t b"
  have p: "previous_title ?s = Some t"
    by (simp add: write_content_to_file_def Let_def)
  have n: "module_number ?s = (if previous_title self = Some t then module_number self else module_number self + 1)"
    by (simp add: write_content_to_file_def Let_def)
  have m: "md_file ?s = md_file self
     @ (if previous_title self = Some t then [] else [section_header (module_number self) t])
     @ [join ''\<newline>\<newline>'' b, ''\<newline>\<newline>'']"
    by (auto simp: write_content_to_file_def Let_def)
  show ?case
    unfolding c
    by (simp add: Cons.IH [of ?s] p n m page_writes_Cons page_writes_def split: list.splits)
qed


lemma write_all_new_scraper:
  "md_file (write_all new_scraper cs) = sections 1 (group_titles cs)"
  using write_all_groups [of new_scraper cs]
  by (simp add: new_scraper_def split: list.splits)

lemma group_titles_distinct_adj: "distinct_adj (map fst (group_titles cs))"
proof (induction cs)
  case Nil
  then show ?case by simp
next
  case (Cons c cs)
  obtain t b where c: "c = (t, b)" by (cases c)
  from Cons.IH show ?case
    unfolding c by (cases "group_titles cs") (auto simp: distinct_adj_Cons)
qed

lemma group_titles_nonempty: "\<forall>g\<in>set (group_titles cs). snd g \<noteq> []"
proof (induction cs)
  case Nil
  then show ?case by simp
next
  case (Cons c cs)
  obtain t b where c: "c = (t, b)" by (cases c)
  from Cons.IH show ?case
    unfolding c by (cases "group_titles cs") auto
qed

lemma group_titles_concat:
  "concat (map (\<lambda>(t, contents). map (Pair t) contents) (group_titles cs)) = cs"
proof (induction cs)
  case Nil
  then show ?case by simp
next
  case (Cons c cs)
  obtain t b where c: "c = (t, b)" by (cases c)
  from Cons.IH show ?case
    unfolding c by (cases "group_titles cs") auto
qed

text \<open>
  C1, amended: in a run that ends, the document is one section per maximal run of
  consecutive contributing pages with the same normalised title, in page order. A page
  contributes when its identity has the marker and its extraction yields a block; pages
  that are skipped or yield nothing write nothing and do not separate the pages around
  them. Each section is one header, written before the blocks of its first page, followed
  by the blocks of all its pages: neighbouring sections differ in title, no section is
  empty, and the sections together hold the contributions in order. So a title is headed
  again only after a contributing page with another title.
\<close>

theorem one_header_per_run_of_contributing_pages:
  "(visited pgs = Some vs \<longrightarrow>
      (\<exists>self. scrape_content (Inr ()) pgs = Some (Completed self)
         \<and> md_file self = sections 1 (group_titles (contributions vs))))
   \<and> distinct_adj (map fst (group_titles (contributions vs)))
   \<and> (\<forall>g\<in>set (group_titles (contributions vs)). snd g \<noteq> [])
   \<and> concat (map (\<lambda>(t, contents). map (Pair t) contents) (group_titles (contributions vs)))
       = contributions vs"
proof (intro conjI impI)
  assume v: "visited pgs = Some vs"
  have "scrape_content (Inr ()) pgs = Some (Completed (write_all new_scraper (contributions vs)))"
    by (simp add: scrape_content_def scrape_loop_visited v)
  with write_all_new_scraper [of "contributions vs"]
  show "\<exists>self. scrape_content (Inr ()) pgs = Some (Completed self)
         \<and> md_file self = sections 1 (group_titles (contributions vs))"
    by blast
next
  show "distinct_adj (map fst (group_titles (contributions vs)))"
    by (rule group_titles_distinct_adj)
next
  show "\<forall>g\<in>set (group_titles (contributions vs)). snd g \<noteq> []"
    by (rule group_titles_nonempty)
next
  show "concat (map (\<lambda>(t, contents). map (Pair t) contents) (group_titles (contributions vs)))
       = contributions vs"
    by (rule group_titles_concat)
qed

lemma click_next_button_shown_page:
  "click_next_button (shown_page title elements has_next) = Inr has_next"
  by (simp add: click_next_button_def shown_page_def wait_and_find_element_def
        wait_loop.simps present_def and_then_def)

theorem one_header_per_run_of_contributing_pages_witness:
  "\<exists>self. scrape_content (Inr ()) four_pages = Some (Completed self)
      \<and> md_file self = [''# Module 1: A\<newline>\<newline>'', ''x'', ''\<newline>\<newline>'', ''z'', ''\<newline>\<newline>'']"
proof -
  have v: "visited four_pages = Some four_pages"
    by (simp add: four_pages_def click_next_button_shown_page)
  have c: "contributions four_pages = [(''A'', [''x'']), (''A'', [''z''])]"
    by code_simp
  have s: "sections 1 (group_titles [(''A'', [''x'']), (''A'', [''z''])])
      = [''# Module 1: A\<newline>\<newline>'', ''x'', ''\<newline>\<newline>'', ''z'', ''\<newline>\<newline>'']"
    by code_simp
  from one_header_per_run_of_contributing_pages [of four_pages four_pages, THEN conjunct1, THEN mp, OF v]
  show ?thesis by (simp only: c s)
qed

section \<open>List titles\<close>

lemma promote_first:
  "list_ex (contains t) pd \<Longrightarrow>
   \<exists>i<length pd. contains t (pd ! i) \<and> (\<forall>j<i. \<not> contains t (pd ! j))
      \<and> promote t pd = pd[i := ''### '' @ pd ! i]"
proof (induction pd)
  case Nil
  then show ?case by simp
next
  case (Cons l ls)
  show ?case
  proof (cases "contains t l")
    case True
    then have "contains t ((l # ls) ! 0) \<and> (\<forall>j<0. \<not> contains t ((l # ls) ! j))
      \<and> promote t (l # ls) = (l # ls)[0 := ''### '' @ (l # ls) ! 0]" by simp
    then show ?thesis by blast
  next
    case False
    with Cons.prems have "list_ex (contains t) ls" by simp
    from Cons.IH [OF this] obtain i where i: "i < length ls" "contains t (ls ! i)"
      "\<forall>j<i. \<not> contains t (ls ! j)" "promote t ls = ls[i := ''### '' @ ls ! i]" by blast
    have "\<forall>j<Suc i. \<not> contains t ((l # ls) ! j)"
      using False i(3) by (auto simp: less_Suc_eq_0_disj)
    with i False have "Suc i < length (l # ls) \<and> contains t ((l # ls) ! Suc i)
      \<and> (\<forall>j<Suc i. \<not> contains t ((l # ls) ! j))
      \<and> promote t (l # ls) = (l # ls)[Suc i := ''### '' @ (l # ls) ! Suc i]" by simp
    then show ?thesis by blast
  qed
qed

lemma duplicate_found_somewhere: "duplicate_found t pd \<Longrightarrow> list_ex (contains t) pd"
  unfolding duplicate_found_def list_ex_iff using set_drop_subset by fastforce

lemma length_promote [simp]: "length (promote t pd) = length pd"
  by (induction pd) auto

lemma process_list_keeps_promotion:
  assumes "get_list_title el ''Listed Items'' = Inr t" and "duplicate_found t (page_data st)"
  shows "take (length (page_data st)) (page_data (fst (process_list el st))) = promote t (page_data st)"
  using assms by (auto simp: process_list_def Let_def split: sum.splits)

text \<open>
  C10: when a list's title is found in one of the last five blocks, the block that gets the
  prefix \<open>###\<close> is the first block of the whole page, from the start, that contains the
  title; the blocks before it do not contain it, and it may lie before the last five.
\<close>

theorem promotion_marks_first_match_on_page:
  assumes "tag_name el = Inr tag" and "tag = ''ul'' \<or> tag = ''ol''"
    and "get_list_title el ''Listed Items'' = Inr t"
    and "duplicate_found t (page_data st)"
  shows "\<exists>i<length (page_data st).
           contains t (page_data st ! i) \<and> (\<forall>j<i. \<not> contains t (page_data st ! j))
           \<and> take (length (page_data st)) (page_data (fst (process_element el st)))
               = (page_data st)[i := ''### '' @ page_data st ! i]"
proof -
  have "process_element el st = process_list el st"
    using assms(1,2) by (auto simp: process_element_def)
  with process_list_keeps_promotion [OF assms(3,4)]
  have "take (length (page_data st)) (page_data (fst (process_element el st))) = promote t (page_data st)"
    by simp
  with promote_first [OF duplicate_found_somewhere [OF assms(4)]] show ?thesis by auto
qed

theorem promotion_marks_first_match_on_page_witness:
  "duplicate_found ''Key Terms'' (page_data seven_blocks)
   \<and> ''Key Terms of the week'' \<notin> set (drop (length (page_data seven_blocks) - 5) (page_data seven_blocks))
   \<and> page_data (fst (process_element (titled_list ''Key Terms'' [''x'']) seven_blocks))
       = [''### Key Terms of the week'', ''a'', ''b'', ''c'', ''d'', ''e'', ''see Key Terms'', ''- x'']
   \<and> (\<exists>i. i < length (page_data seven_blocks)
           \<and> contains ''Key Terms'' (page_data seven_blocks ! i)
           \<and> take (length (page_data seven_blocks))
                (page_data (fst (process_element (titled_list ''Key Terms'' [''x'']) seven_blocks)))
               = (page_data seven_blocks)[i := ''### '' @ page_data seven_blocks ! i])"
proof -
  have 1: "tag_name (titled_list ''Key Terms'' [''x'']) = Inr ''ul''" by code_simp
  have 2: "get_list_title (titled_list ''Key Terms'' [''x'']) ''Listed Items'' = Inr ''Key Terms''"
    by code_simp
  have 3: "duplicate_found ''Key Terms'' (page_data seven_blocks)" by code_simp
  have 4: "''Key Terms of the week'' \<notin> set (drop (length (page_data seven_blocks) - 5) (page_data seven_blocks))"
    by code_simp
  have 5: "page_data (fst (process_element (titled_list ''Key Terms'' [''x'']) seven_blocks))
       = [''### Key Terms of the week'', ''a'', ''b'', ''c'', ''d'', ''e'', ''see Key Terms'', ''- x'']"
    by code_simp
  from promotion_marks_first_match_on_page [OF 1 _ 2 3] 3 4 5 show ?thesis by blast
qed

text \<open>
  C2: the promotion is not idempotent in the code. The marker is prefixed without a check:
  a block that already starts with \<open>###\<close> gets a second one. Two lists on one page with
  the title \<open>Key Terms\<close> leave the header of the first as \<open>### ### Key Terms\<close>.
\<close>

theorem repeated_list_title_doubles_marker:
  "extract_content (shown_page ''Reading X''
      [titled_list ''Key Terms'' [''a''], titled_list ''Key Terms'' [''b'']] False)
     = [''### ### Key Terms'', ''- a'', ''- b'']
   \<and> promote ''Key Terms'' [''### Key Terms''] = [''### ### Key Terms'']"
  by code_simp

text \<open>
  C5: a list with no heading before it. The lookup on the list node raises
  \<open>NoSuchElementException\<close>, which \<open>get_list_title\<close> does not catch: no default title
  is returned, and the list's items are lost while the nodes after it are still processed.
\<close>

theorem list_without_heading_is_dropped:
  "get_list_title ((node ''ul'')\<lparr>list_items := Inr [Inr ''a'']\<rparr>) ''Listed Items'' = Inl NoSuchElement
   \<and> extract_content (shown_page ''Reading X''
        [(node ''ul'')\<lparr>list_items := Inr [Inr ''a'']\<rparr>, p_node ''after''] False) = [''after'']"
  by code_simp

section \<open>Media sources\<close>

lemma process_media_first_usable:
  "fst (process_media el tag [''src'', ''data-src'', ''href''] st) =
     (case first_usable el (processed_sources st) of
        None \<Rightarrow> st
      | Some u \<Rightarrow> st\<lparr>processed_sources := insert u (processed_sources st),
                     page_data := page_data st @ [media_block tag u]\<rparr>)"
  by (auto simp: first_usable_def usable_def split: sum.splits option.splits)

lemma first_usable_fresh: "first_usable el seen = Some u \<Longrightarrow> u \<noteq> [] \<and> u \<notin> seen"
  by (auto simp: first_usable_def usable_def split: sum.splits option.splits if_splits)

lemma first_usable_unseen:
  "first_usable el {} = Some u \<Longrightarrow> u \<notin> seen \<Longrightarrow> first_usable el seen = Some u"
  by (auto simp: first_usable_def usable_def split: sum.splits option.splits if_splits)

lemma is_media_readable: "is_media el \<Longrightarrow> tag_readable el"
  by (auto simp: is_media_def tag_readable_def split: sum.splits)

lemma process_element_media:
  assumes "is_media el"
  shows "process_element el st = process_media el (tag_of el) [''src'', ''data-src'', ''href''] st"
proof -
  from assms obtain tag where t: "tag_name el = Inr tag" "tag \<in> set media_tags"
    by (auto simp: is_media_def split: sum.splits)
  then have "tag \<noteq> ''p''" "tag \<noteq> ''ul''" "tag \<noteq> ''ol''"
    by (auto simp: media_tags_def)
  with t show ?thesis
    by (simp add: process_element_def tag_of_def del: process_media.simps)
qed

lemma process_media_keeps_sources:
  "processed_sources st \<subseteq> processed_sources (fst (process_media el tag attrs st))"
  by (induction attrs) (auto split: sum.splits option.splits)

lemma process_list_keeps_sources:
  "processed_sources (fst (process_list el st)) = processed_sources st"
  by (auto simp: process_list_def Let_def split: sum.splits)

lemma process_element_keeps_sources:
  "processed_sources st \<subseteq> processed_sources (fst (process_element el st))"
proof (cases "tag_name el")
  case (Inl e)
  then show ?thesis by (simp add: process_element_def)
next
  case (Inr tag)
  consider "tag = ''p''" | "tag \<noteq> ''p''" "tag \<in> set [''ul'', ''ol'']"
    | "tag \<noteq> ''p''" "tag \<notin> set [''ul'', ''ol'']" "tag \<in> set media_tags"
    | "tag \<noteq> ''p''" "tag \<notin> set [''ul'', ''ol'']" "tag \<notin> set media_tags"
    by blast
  then show ?thesis
  proof cases
    case 1
    with Inr show ?thesis by (auto simp: process_element_def split: sum.splits)
  next
    case 2
    with Inr have "process_element el st = process_list el st"
      by (simp add: process_element_def)
    then show ?thesis by (simp add: process_list_keeps_sources)
  next
    case 3
    with Inr have "process_element el st = process_media el tag [''src'', ''data-src'', ''href''] st"
      by (simp add: process_element_def)
    then show ?thesis by (simp only: process_media_keeps_sources)
  next
    case 4
    with Inr show ?thesis by (simp add: process_element_def)
  qed
qed

lemma extract_loop_readable:
  assumes "tag_readable el"
  shows "extract_loop (el # els) st = extract_loop els (fst (process_element el st))"
  using assms
  by (cases "process_element el st")
     (auto simp: tag_readable_def split: sum.splits option.splits)

lemma extract_loop_append:
  "\<forall>e\<in>set xs. tag_readable e \<Longrightarrow>
   extract_loop (xs @ ys) st = extract_loop ys (extract_loop xs st)"
proof (induction xs arbitrary: st)
  case Nil
  then show ?case by simp
next
  case (Cons x xs)
  then have "tag_readable x" and "\<forall>e\<in>set xs. tag_readable e" by simp_all
  with Cons.IH show ?case
    by (simp add: extract_loop_readable del: extract_loop.simps)
qed

lemma extract_loop_keeps_sources:
  "processed_sources st \<subseteq> processed_sources (extract_loop els st)"
proof (induction els arbitrary: st)
  case Nil
  then show ?case by simp
next
  case (Cons el els)
  have step: "processed_sources st \<subseteq> processed_sources (fst (process_element el st))"
    by (rule process_element_keeps_sources)
  show ?case
  proof (cases "process_element el st")
    case (Pair st' err)
    with step have s: "processed_sources st \<subseteq> processed_sources st'" by simp
    from Cons.IH [of st'] s have "processed_sources st \<subseteq> processed_sources (extract_loop els st')"
      by blast
    with Pair s show ?thesis
      by (auto split: option.splits sum.splits)
  qed
qed

lemma media_node_step:
  assumes "is_media el"
  shows "fst (process_element el st) =
     (case first_usable el (processed_sources st) of
        None \<Rightarrow> st
      | Some u \<Rightarrow> st\<lparr>processed_sources := insert u (processed_sources st),
                     page_data := page_data st @ [media_block (tag_of el) u]\<rparr>)"
  using process_element_media [OF assms, of st] process_media_first_usable [of el "tag_of el" st]
  by (simp del: process_media.simps)

lemma other_node_keeps_sources:
  assumes "tag_readable el" and "\<not> is_media el"
  shows "processed_sources (fst (process_element el st)) = processed_sources st"
proof -
  from assms obtain tag where t: "tag_name el = Inr tag" "tag \<notin> set media_tags"
    by (auto simp: tag_readable_def is_media_def split: sum.splits)
  show ?thesis
  proof (cases "tag = ''p''")
    case True
    with t show ?thesis by (auto simp: process_element_def split: sum.splits)
  next
    case False
    show ?thesis
    proof (cases "tag \<in> set [''ul'', ''ol'']")
      case True
      with False t have "process_element el st = process_list el st"
        by (simp add: process_element_def)
      then show ?thesis by (simp add: process_list_keeps_sources)
    next
      case l: False
      with False t show ?thesis by (simp add: process_element_def)
    qed
  qed
qed

lemma extract_loop_snoc:
  assumes "\<forall>e\<in>set pre. tag_readable e" and "tag_readable el"
  shows "extract_loop (pre @ [el]) st = fst (process_element el (extract_loop pre st))"
  using extract_loop_append [OF assms(1), of "[el]" st] extract_loop_readable [OF assms(2), of "[]"]
  by (simp del: extract_loop.simps(2)) 

lemma sources_after_snoc_media:
  assumes "\<forall>e\<in>set pre. tag_readable e" and "is_media el"
  shows "sources_after (pre @ [el]) =
     (case first_usable el (sources_after pre) of
        None \<Rightarrow> sources_after pre
      | Some u \<Rightarrow> insert u (sources_after pre))"
  unfolding sources_after_def
  by (simp add: extract_loop_snoc [OF assms(1) is_media_readable [OF assms(2)]]
        media_node_step [OF assms(2)] split: option.splits)

lemma sources_after_snoc_other:
  assumes "\<forall>e\<in>set pre. tag_readable e" and "tag_readable el" and "\<not> is_media el"
  shows "sources_after (pre @ [el]) = sources_after pre"
  unfolding sources_after_def
  by (simp add: extract_loop_snoc [OF assms(1,2)] other_node_keeps_sources [OF assms(2,3)])

lemma sources_after_mono:
  assumes "\<forall>e\<in>set xs. tag_readable e"
  shows "sources_after xs \<subseteq> sources_after (xs @ ys)"
  unfolding sources_after_def extract_loop_append [OF assms]
  by (rule extract_loop_keeps_sources)

lemma seen_iff_emitted:
  "\<forall>e\<in>set pre. tag_readable e \<Longrightarrow>
   u \<in> sources_after pre \<longleftrightarrow>
     (\<exists>p1 e p2. pre = p1 @ e # p2 \<and> is_media e \<and> first_usable e (sources_after p1) = Some u)"
proof (induction pre rule: rev_induct)
  case Nil
  then show ?case by (simp add: sources_after_def start_of_page_def)
next
  case (snoc x xs)
  then have r: "\<forall>e\<in>set xs. tag_readable e" and rx: "tag_readable x" by simp_all
  define E where "E ys \<longleftrightarrow>
    (\<exists>p1 e p2. ys = p1 @ e # p2 \<and> is_media e \<and> first_usable e (sources_after p1) = Some u)" for ys
  define L where "L \<longleftrightarrow> is_media x \<and> first_usable x (sources_after xs) = Some u"
  have ih: "u \<in> sources_after xs \<longleftrightarrow> E xs"
    unfolding E_def by (rule snoc.IH [OF r])
  have ext: "E xs \<Longrightarrow> E (xs @ [x])"
    unfolding E_def by (metis append_Cons append_assoc)
  have lst: "L \<Longrightarrow> E (xs @ [x])"
    unfolding E_def L_def by blast
  have dec: "E (xs @ [x]) \<Longrightarrow> E xs \<or> L"
  proof -
    assume "E (xs @ [x])"
    then obtain p1 e p2 where d: "xs @ [x] = p1 @ e # p2" "is_media e"
      "first_usable e (sources_after p1) = Some u" unfolding E_def by blast
    show ?thesis
    proof (cases p2 rule: rev_cases)
      case Nil
      with d have "xs = p1" "x = e" by simp_all
      with d show ?thesis unfolding L_def by simp
    next
      case (snoc p2' y)
      with d have "xs = p1 @ e # p2'" by simp
      with d show ?thesis unfolding E_def by blast
    qed
  qed
  have step: "u \<in> sources_after (xs @ [x]) \<longleftrightarrow> u \<in> sources_after xs \<or> L"
  proof (cases "is_media x")
    case True
    note s = sources_after_snoc_media [OF r True]
    show ?thesis
    proof (cases "first_usable x (sources_after xs)")
      case None
      with s show ?thesis unfolding L_def by simp
    next
      case (Some v)
      with s True show ?thesis unfolding L_def by auto
    qed
  next
    case False
    with sources_after_snoc_other [OF r rx False] show ?thesis unfolding L_def by simp
  qed
  have "u \<in> sources_after (xs @ [x]) \<longleftrightarrow> E (xs @ [x])"
    using step ih ext lst dec by blast
  then show ?case unfolding E_def .
qed

lemma never_emitted_twice:
  assumes "\<forall>e\<in>set (p1 @ e1 # mid). tag_readable e" and "is_media e1"
    and "first_usable e1 (sources_after p1) = Some u"
  shows "first_usable e2 (sources_after (p1 @ e1 # mid)) \<noteq> Some u"
proof -
  from assms(1) have r1: "\<forall>e\<in>set p1. tag_readable e" and r2: "\<forall>e\<in>set (p1 @ [e1]). tag_readable e"
    by simp_all
  from assms(3) sources_after_snoc_media [OF r1 assms(2)] have "u \<in> sources_after (p1 @ [e1])"
    by simp
  with sources_after_mono [OF r2, of mid] have "u \<in> sources_after (p1 @ e1 # mid)" by auto
  with first_usable_fresh show ?thesis by blast
qed

lemma longer_prefix_splits:
  assumes "p1 @ e # p2 = q1 @ f # q2" and "length p1 < length q1"
  shows "\<exists>mid. q1 = p1 @ e # mid"
proof -
  from assms(1) obtain us where
    "(p1 = q1 @ us \<and> us @ e # p2 = f # q2) \<or> (p1 @ us = q1 \<and> e # p2 = us @ f # q2)"
    by (auto simp: append_eq_append_conv2)
  with assms(2) have q: "p1 @ us = q1" and c: "e # p2 = us @ f # q2" by auto
  from q assms(2) have "us \<noteq> []" by auto
  then obtain a mid where us: "us = a # mid" by (cases us) auto
  with c have "a = e" by simp
  with q us show ?thesis by blast
qed

lemma exactly_one_emitter:
  assumes r: "\<forall>e\<in>set (pre @ el # post). tag_readable e" and m: "is_media el"
    and f: "first_usable el {} = Some u"
  shows "\<exists>!p1. \<exists>e p2. pre @ el # post = p1 @ e # p2 \<and> is_media e
            \<and> first_usable e (sources_after p1) = Some u"
proof (rule ex_ex1I)
  from r have rp: "\<forall>e\<in>set pre. tag_readable e" and rpe: "\<forall>e\<in>set (pre @ [el]). tag_readable e"
    by simp_all
  have "u \<in> sources_after (pre @ [el])"
  proof (cases "u \<in> sources_after pre")
    case True
    with sources_after_mono [OF rp, of "[el]"] show ?thesis by blast
  next
    case False
    with f have "first_usable el (sources_after pre) = Some u" by (rule first_usable_unseen)
    with sources_after_snoc_media [OF rp m] show ?thesis by simp
  qed
  with seen_iff_emitted [OF rpe, of u] obtain p1 e p2 where
    d: "pre @ [el] = p1 @ e # p2" "is_media e" "first_usable e (sources_after p1) = Some u"
    by blast
  from d(1) have "pre @ el # post = p1 @ e # (p2 @ post)"
    by (metis append_Cons append_Nil append_assoc)
  with d(2,3) show "\<exists>p1. \<exists>e p2. pre @ el # post = p1 @ e # p2 \<and> is_media e
            \<and> first_usable e (sources_after p1) = Some u" by blast
next
  fix p1 q1
  assume "\<exists>e p2. pre @ el # post = p1 @ e # p2 \<and> is_media e
            \<and> first_usable e (sources_after p1) = Some u"
  then obtain e p2 where a: "pre @ el # post = p1 @ e # p2" "is_media e"
    "first_usable e (sources_after p1) = Some u" by blast
  assume "\<exists>e p2. pre @ el # post = q1 @ e # p2 \<and> is_media e
            \<and> first_usable e (sources_after q1) = Some u"
  then obtain g q2 where b: "pre @ el # post = q1 @ g # q2" "is_media g"
    "first_usable g (sources_after q1) = Some u" by blast
  from a(1) b(1) have eq: "p1 @ e # p2 = q1 @ g # q2" by simp
  have no_lt: False if lt: "length x1 < length y1"
    and xa: "pre @ el # post = x1 @ xe # x2" "is_media xe" "first_usable xe (sources_after x1) = Some u"
    and ya: "pre @ el # post = y1 @ ye # y2" "first_usable ye (sources_after y1) = Some u"
    for x1 xe x2 y1 ye y2
  proof -
    from xa(1) ya(1) have "x1 @ xe # x2 = y1 @ ye # y2" by simp
    from longer_prefix_splits [OF this lt] obtain mid where y1: "y1 = x1 @ xe # mid" by blast
    with ya(1) r have "\<forall>e\<in>set (x1 @ xe # mid). tag_readable e"
      by (metis Un_iff set_append)
    from never_emitted_twice [OF this xa(2,3), of ye] ya(2) y1 show False by simp
  qed
  have "length p1 = length q1"
  proof (rule ccontr)
    assume "length p1 \<noteq> length q1"
    then consider "length p1 < length q1" | "length q1 < length p1" by linarith
    then show False
    proof cases
      case 1
      from no_lt [OF 1 a b(1,3)] show False .
    next
      case 2
      from no_lt [OF 2 b a(1,3)] show False .
    qed
  qed
  with eq show "p1 = q1" by simp
qed

lemma extract_loop_stops:
  assumes "\<forall>e\<in>set xs. tag_readable e" and "\<not> tag_readable bad"
  shows "extract_loop (xs @ bad # ys) st = extract_loop xs st"
proof -
  from assms(2) obtain e where b: "tag_name bad = Inl e"
    by (auto simp: tag_readable_def split: sum.splits)
  then have "process_element bad st' = (st', Some e)" for st'
    by (simp add: process_element_def)
  with b have "extract_loop (bad # ys) st' = st'" for st' by simp
  with extract_loop_append [OF assms(1), of "bad # ys" st] show ?thesis by simp
qed

text \<open>
  C4: on any page, each source URL gets its media block once, at its first occurrence. When
  a media node is reached, it appends the block of its first usable attribute value, in the
  order \<open>src\<close>, \<open>data-src\<close>, \<open>href\<close>, and records that source; it appends nothing
  when no value is usable. A source is recorded exactly when a media node before has appended
  its block, so nodes of other kinds never touch the sources. For the first non-empty
  attribute value of a media node there is exactly one node of the page that appends its
  block; it is that node when the value was not recorded before it, and no later node
  appends a block for a source this node has appended. A node whose tag name cannot be read
  ends the pass: the nodes after it are not reached.
\<close>

theorem media_source_emitted_once:
  "((\<forall>e\<in>set (pre @ el # post). tag_readable e) \<and> is_media el \<longrightarrow>
       extract_loop (pre @ [el]) start_of_page =
           (case first_usable el (sources_after pre) of
              None \<Rightarrow> extract_loop pre start_of_page
            | Some u \<Rightarrow> (extract_loop pre start_of_page)
                \<lparr>processed_sources := insert u (sources_after pre),
                 page_data := page_data (extract_loop pre start_of_page) @ [media_block (tag_of el) u]\<rparr>)
       \<and> (\<forall>u. u \<in> sources_after pre \<longleftrightarrow>
              (\<exists>p1 e p2. pre = p1 @ e # p2 \<and> is_media e \<and> first_usable e (sources_after p1) = Some u))
       \<and> (\<forall>u. first_usable el {} = Some u \<longrightarrow>
              (\<exists>!p1. \<exists>e p2. pre @ el # post = p1 @ e # p2 \<and> is_media e
                  \<and> first_usable e (sources_after p1) = Some u)
              \<and> (u \<notin> sources_after pre \<longrightarrow> first_usable el (sources_after pre) = Some u))
       \<and> (\<forall>u. first_usable el (sources_after pre) = Some u \<longrightarrow>
              u \<noteq> [] \<and> u \<notin> sources_after pre
              \<and> (\<forall>mid el' rest. post = mid @ el' # rest \<longrightarrow>
                    first_usable el' (sources_after (pre @ el # mid)) \<noteq> Some u)))
   \<and> ((\<forall>e\<in>set pre. tag_readable e) \<and> \<not> tag_readable el \<longrightarrow>
         extract_loop (pre @ el # post) start_of_page = extract_loop pre start_of_page)"
proof (intro conjI impI allI)
  assume a: "(\<forall>e\<in>set (pre @ el # post). tag_readable e) \<and> is_media el"
  then have r: "\<forall>e\<in>set pre. tag_readable e" and m: "is_media el" by simp_all
  show "extract_loop (pre @ [el]) start_of_page =
           (case first_usable el (sources_after pre) of
              None \<Rightarrow> extract_loop pre start_of_page
            | Some u \<Rightarrow> (extract_loop pre start_of_page)
                \<lparr>processed_sources := insert u (sources_after pre),
                 page_data := page_data (extract_loop pre start_of_page) @ [media_block (tag_of el) u]\<rparr>)"
    unfolding sources_after_def
    by (simp only: extract_loop_snoc [OF r is_media_readable [OF m]] media_node_step [OF m])
next
  fix u
  assume a: "(\<forall>e\<in>set (pre @ el # post). tag_readable e) \<and> is_media el"
  then have r: "\<forall>e\<in>set pre. tag_readable e" by simp
  show "u \<in> sources_after pre \<longleftrightarrow>
     (\<exists>p1 e p2. pre = p1 @ e # p2 \<and> is_media e \<and> first_usable e (sources_after p1) = Some u)"
    by (rule seen_iff_emitted [OF r])
next
  fix u
  assume a: "(\<forall>e\<in>set (pre @ el # post). tag_readable e) \<and> is_media el"
    and f: "first_usable el {} = Some u"
  from a have r: "\<forall>e\<in>set (pre @ el # post). tag_readable e" and m: "is_media el" by blast+
  show "\<exists>!p1. \<exists>e p2. pre @ el # post = p1 @ e # p2 \<and> is_media e
                  \<and> first_usable e (sources_after p1) = Some u"
    by (rule exactly_one_emitter [OF r m f])
next
  fix u
  assume "first_usable el {} = Some u" and "u \<notin> sources_after pre"
  then show "first_usable el (sources_after pre) = Some u" by (rule first_usable_unseen)
next
  fix u assume "first_usable el (sources_after pre) = Some u"
  then show "u \<noteq> []" using first_usable_fresh by blast
next
  fix u assume "first_usable el (sources_after pre) = Some u"
  then show "u \<notin> sources_after pre" using first_usable_fresh by blast
next
  fix u mid el' rest
  assume a: "(\<forall>e\<in>set (pre @ el # post). tag_readable e) \<and> is_media el"
    and f: "first_usable el (sources_after pre) = Some u"
    and p: "post = mid @ el' # rest"
  from a p have r: "\<forall>e\<in>set (pre @ el # mid). tag_readable e" and m: "is_media el" by auto
  show "first_usable el' (sources_after (pre @ el # mid)) \<noteq> Some u"
    by (rule never_emitted_twice [OF r m f])
next
  assume "(\<forall>e\<in>set pre. tag_readable e) \<and> \<not> tag_readable el"
  then show "extract_loop (pre @ el # post) start_of_page = extract_loop pre start_of_page"
    using extract_loop_stops by blast
qed

theorem media_source_emitted_once_witness:
  "extract_loop (mixed_pre @ [clip]) start_of_page =
      \<lparr>page_data = [''a.png'', media_block ''img'' ''a.png'', ''### T'', ''- i'',
                    media_block ''video'' ''b.mp4''],
       processed_sources = {''b.mp4'', ''a.png''}\<rparr>
   \<and> first_usable clip {} = Some ''a.png''
   \<and> first_usable clip (sources_after mixed_pre) = Some ''b.mp4''
   \<and> first_usable (mixed_pre ! 3) (sources_after (take 3 mixed_pre)) = None"
proof -
  have r: "(\<forall>e\<in>set (mixed_pre @ clip # [p_node ''end'']). tag_readable e) \<and> is_media clip"
    by (simp add: mixed_pre_def clip_def tag_readable_def is_media_def p_node_def media_def
          titled_list_def node_def media_tags_def)
  have pre: "extract_loop mixed_pre start_of_page =
      \<lparr>page_data = [''a.png'', media_block ''img'' ''a.png'', ''### T'', ''- i''],
       processed_sources = {''a.png''}\<rparr>"
    by code_simp
  then have sa: "sources_after mixed_pre = {''a.png''}" by (simp add: sources_after_def)
  have f0: "first_usable clip {} = Some ''a.png''" by code_simp
  have f1: "first_usable clip {''a.png''} = Some ''b.mp4''" by code_simp
  have f3: "first_usable (mixed_pre ! 3) (sources_after (take 3 mixed_pre)) = None" by code_simp
  have t: "tag_of clip = ''video''" by code_simp
  from media_source_emitted_once [of mixed_pre clip "[p_node ''end'']", THEN conjunct1, THEN mp, OF r,
      THEN conjunct1]
  have "extract_loop (mixed_pre @ [clip]) start_of_page =
      \<lparr>page_data = [''a.png'', media_block ''img'' ''a.png'', ''### T'', ''- i'',
                    media_block ''video'' ''b.mp4''],
       processed_sources = {''b.mp4'', ''a.png''}\<rparr>"
    by (simp add: sa f1 pre t)
  with f0 f1 f3 sa show ?thesis by simp
qed

section \<open>The title resolver\<close>

lemma get_list_title_default_when_caught:
  "fst (wait_and_find_element (styled_paragraph_before el) 5) = Inl e \<Longrightarrow>
   e = Timeout \<or> e = StaleElementReference \<Longrightarrow> get_list_title el d = Inr d"
  by (auto simp: get_list_title_def and_then_def)

lemma get_list_title_raises_otherwise:
  "fst (wait_and_find_element (styled_paragraph_before el) 5) = Inl e \<Longrightarrow>
   e \<noteq> Timeout \<Longrightarrow> e \<noteq> StaleElementReference \<Longrightarrow> get_list_title el d = Inl e"
  by (auto simp: get_list_title_def and_then_def)

end
